theory Spec2Isabelle
  imports Main
begin

section \<open>Subsystem lifecycle (subsystem.h, subsystem.cpp)\<close>

text \<open>
  \<^verbatim>\<open>enum Status { INIT, READY, FAULT, RUNNING, STOPPED }\<close> of \<^verbatim>\<open>BaseSubsystem\<close>.
\<close>

datatype Status = INIT | READY | FAULT | RUNNING | STOPPED

text \<open>
  A subsystem object is named by its address. The three ways a class gets its
  \<^verbatim>\<open>start()\<close>: from \<^verbatim>\<open>TickableSubsystem\<close>, from \<^verbatim>\<open>ThreadedSubsystem\<close>, or written by
  a class that extends \<^verbatim>\<open>BaseSubsystem\<close> directly.
\<close>

type_synonym sid = nat

datatype kind = Tickable | Threaded | Direct

text \<open>
  The manager calls the virtual \<^verbatim>\<open>setup()\<close> and \<^verbatim>\<open>start()\<close> of a subsystem; the sequence
  of these calls is kept in \<open>calls\<close>, oldest first.
\<close>

datatype call = Setup sid | Start sid

text \<open>
  The mutable state of all subsystem objects: the \<^verbatim>\<open>status\<close> field of each, the
  \<^verbatim>\<open>taskHandle\<close> field of each (\<open>None\<close> is the null handle the constructor of
  \<^verbatim>\<open>ThreadedSubsystem\<close> stores), the subsystems for which a thread creation was
  requested (\<open>tasks\<close>, oldest first), and the virtual calls made by the manager.
\<close>

record world =
  status :: "sid \<Rightarrow> Status"
  taskHandle :: "sid \<Rightarrow> nat option"
  tasks :: "sid list"
  calls :: "call list"

text \<open>
  What lies outside the repository: the class of each subsystem, the status in which
  the \<^verbatim>\<open>setup()\<close> of a subsystem leaves it (\<^verbatim>\<open>setup()\<close> is pure virtual in every class of
  the repository, and \<^verbatim>\<open>setStatus\<close> is protected, so an implementation writes the status
  of its own object), the same for the \<^verbatim>\<open>start()\<close> of a class that extends
  \<^verbatim>\<open>BaseSubsystem\<close> directly, and the handle that the scheduler's
  \<^verbatim>\<open>xTaskCreateStaticPinnedToCore\<close> returns (\<open>None\<close> when no thread was created).
\<close>

record env =
  kind_of :: "sid \<Rightarrow> kind"
  setup_impl :: "sid \<Rightarrow> world \<Rightarrow> Status"
  start_impl :: "sid \<Rightarrow> world \<Rightarrow> Status"
  xTaskCreateStaticPinnedToCore :: "sid \<Rightarrow> world \<Rightarrow> nat option"

text \<open>
  \<^verbatim>\<open>BaseSubsystem::getStatus\<close> and \<^verbatim>\<open>BaseSubsystem::setStatus\<close>. Each takes the lock of
  the object, reads or writes \<^verbatim>\<open>status\<close> and releases the lock again; bring-up runs on
  one thread, where the lock is free on entry and on exit. The lock itself, and the
  lock actions of the two accessors, are the subject of the last section.
\<close>

definition getStatus :: "sid \<Rightarrow> world \<Rightarrow> Status" where
  "getStatus s w = status w s"

definition setStatus :: "sid \<Rightarrow> Status \<Rightarrow> world \<Rightarrow> world" where
  "setStatus s newStatus w = w\<lparr>status := (status w)(s := newStatus)\<rparr>"

text \<open>\<^verbatim>\<open>TickableSubsystem::start\<close>: the returned status and the new state.\<close>

definition TickableSubsystem_start :: "sid \<Rightarrow> world \<Rightarrow> Status \<times> world" where
  "TickableSubsystem_start s w =
     (let w1 = setStatus s RUNNING w
      in (getStatus s w1, w1))"

text \<open>
  \<^verbatim>\<open>ThreadedSubsystem::start\<close>. The thread is requested only when the status is not
  \<^verbatim>\<open>FAULT\<close>; the test that follows reads \<^verbatim>\<open>taskHandle\<close>, whatever wrote it.
\<close>

definition ThreadedSubsystem_start :: "env \<Rightarrow> sid \<Rightarrow> world \<Rightarrow> Status \<times> world" where
  "ThreadedSubsystem_start E s w =
     (let w1 = (if getStatus s w \<noteq> FAULT
                then w\<lparr>taskHandle := (taskHandle w)(s := xTaskCreateStaticPinnedToCore E s w),
                       tasks := tasks w @ [s]\<rparr>
                else w);
          w2 = (if taskHandle w1 s = None
                then setStatus s FAULT w1
                else setStatus s RUNNING w1)
      in (getStatus s w2, w2))"

text \<open>
  The virtual calls \<^verbatim>\<open>subsystem->setup()\<close> and \<^verbatim>\<open>subsystem->start()\<close> as the manager makes
  them (it drops the returned status).
\<close>

definition call_setup :: "env \<Rightarrow> sid \<Rightarrow> world \<Rightarrow> world" where
  "call_setup E s w =
     (let w1 = w\<lparr>calls := calls w @ [Setup s]\<rparr>
      in setStatus s (setup_impl E s w1) w1)"

definition call_start :: "env \<Rightarrow> sid \<Rightarrow> world \<Rightarrow> world" where
  "call_start E s w =
     (let w1 = w\<lparr>calls := calls w @ [Start s]\<rparr>
      in case kind_of E s of
           Tickable \<Rightarrow> snd (TickableSubsystem_start s w1)
         | Threaded \<Rightarrow> snd (ThreadedSubsystem_start E s w1)
         | Direct \<Rightarrow> setStatus s (start_impl E s w1) w1)"

section \<open>The manager (SubsystemManagerClass)\<close>

text \<open>
  \<^verbatim>\<open>struct Spec\<close>: the owner (\<open>None\<close> is a null pointer) and the null-terminated array
  of dependencies (\<open>None\<close> is a null array pointer, otherwise the entries before the
  terminator). The \<^verbatim>\<open>next\<close> pointers are the order of the list of specs, head first.
\<close>

record Spec =
  subsystem :: "sid option"
  deps :: "sid list option"

text \<open>
  The manager object: the function-local flag of \<^verbatim>\<open>addSubsystem\<close> and the head of the
  list. A spec is linked into the list at most once.
\<close>

record manager =
  setup_flag :: bool
  specs :: "Spec list"

text \<open>\<^verbatim>\<open>SubsystemManagerClass::addSubsystem\<close>; the argument \<open>None\<close> is a null pointer.\<close>

definition addSubsystem :: "Spec option \<Rightarrow> manager \<Rightarrow> manager" where
  "addSubsystem spec m =
     (let m1 = (if setup_flag m = False then m\<lparr>specs := [], setup_flag := True\<rparr> else m)
      in case spec of
           None \<Rightarrow> m1
         | Some sp \<Rightarrow>
             (if subsystem sp = None then m1
              else m1\<lparr>specs := sp # specs m1\<rparr>))"

text \<open>\<^verbatim>\<open>SubsystemManagerClass::findSpecBySubsystem\<close>.\<close>

fun findSpecBySubsystem :: "Spec list \<Rightarrow> sid \<Rightarrow> Spec option" where
  "findSpecBySubsystem [] needle = None"
| "findSpecBySubsystem (sp # rest) needle =
     (if subsystem sp = Some needle then Some sp else findSpecBySubsystem rest needle)"

text \<open>
  \<^verbatim>\<open>SubsystemManagerClass::descendAndStartOrSetup\<close> of subsystem.cpp, the version with
  the \<^verbatim>\<open>depth\<close> argument. The C++ recursion has no bound of its own, so the model counts
  the nesting of calls: the first argument is the number of nested activations that
  are allowed, and \<open>None\<close> says that they did not suffice. A call that returns with no
  bound returns the same state with every large enough bound; a call that is \<open>None\<close>
  for every bound never returns.

  \<open>descend_deps\<close> is the \<^verbatim>\<open>for\<close> loop over \<^verbatim>\<open>deps\<close>: it stops at the terminator or when
  \<^verbatim>\<open>depth < 8\<close> fails, calls the procedure with \<^verbatim>\<open>depth++\<close> (the value before the
  increment) and continues with the incremented \<^verbatim>\<open>depth\<close>.
\<close>

fun descendAndStartOrSetup ::
    "nat \<Rightarrow> env \<Rightarrow> Spec list \<Rightarrow> Spec option \<Rightarrow> Status \<Rightarrow> int \<Rightarrow> world \<Rightarrow> world option"
  and descend_deps ::
    "nat \<Rightarrow> env \<Rightarrow> Spec list \<Rightarrow> sid list \<Rightarrow> Status \<Rightarrow> int \<Rightarrow> world \<Rightarrow> world option"
where
  "descendAndStartOrSetup 0 E sps spec desiredState depth w = None"
| "descendAndStartOrSetup (Suc n) E sps spec desiredState depth w =
     (case spec of
        None \<Rightarrow> Some w
      | Some sp \<Rightarrow>
          (case subsystem sp of
             None \<Rightarrow> Some w
           | Some sub \<Rightarrow>
               (if sps = [] then Some w
                else
                  (case descend_deps n E sps (case deps sp of None \<Rightarrow> [] | Some ds \<Rightarrow> ds)
                          desiredState depth w of
                     None \<Rightarrow> None
                   | Some w1 \<Rightarrow>
                       (let st = getStatus sub w1
                        in if st = desiredState \<or> (st = FAULT \<or> st = STOPPED) then Some w1
                           else
                             (let w2 = (if desiredState = READY \<and> st = INIT
                                        then call_setup E sub w1 else w1);
                                  w3 = (if desiredState = RUNNING \<and> st = READY
                                        then call_start E sub w2 else w2)
                              in Some w3))))))"
| "descend_deps n E sps [] desiredState depth w = Some w"
| "descend_deps n E sps (d # ds) desiredState depth w =
     (if depth < 8
      then (case descendAndStartOrSetup n E sps (findSpecBySubsystem sps d) desiredState depth w of
              None \<Rightarrow> None
            | Some w1 \<Rightarrow> descend_deps n E sps ds desiredState (depth + 1) w1)
      else Some w)"



text \<open>
  The \<^verbatim>\<open>while\<close> loop of \<^verbatim>\<open>setup\<close> and \<^verbatim>\<open>start\<close> over the list: it stops at the end of the
  list or at a spec without an owner. The declaration that gives \<^verbatim>\<open>depth\<close> its default
  value is not among the sources, so the value the two loops pass is the parameter
  \<open>depth0\<close>.
\<close>

fun run_specs ::
    "nat \<Rightarrow> env \<Rightarrow> Spec list \<Rightarrow> Spec list \<Rightarrow> Status \<Rightarrow> int \<Rightarrow> world \<Rightarrow> world option" where
  "run_specs n E sps [] desiredState depth0 w = Some w"
| "run_specs n E sps (sp # rest) desiredState depth0 w =
     (if subsystem sp = None then Some w
      else (case descendAndStartOrSetup n E sps (Some sp) desiredState depth0 w of
              None \<Rightarrow> None
            | Some w1 \<Rightarrow> run_specs n E sps rest desiredState depth0 w1))"

text \<open>
  \<^verbatim>\<open>SubsystemManagerClass::setup\<close> and \<^verbatim>\<open>SubsystemManagerClass::start\<close>; \<open>self\<close> is the
  manager object, itself a \<^verbatim>\<open>BaseSubsystem\<close> with a status.
\<close>

definition SubsystemManager_setup ::
    "nat \<Rightarrow> env \<Rightarrow> int \<Rightarrow> sid \<Rightarrow> manager \<Rightarrow> world \<Rightarrow> (Status \<times> world) option" where
  "SubsystemManager_setup n E depth0 self m w =
     (case run_specs n E (specs m) (specs m) READY depth0 w of
        None \<Rightarrow> None
      | Some w1 \<Rightarrow> (let w2 = setStatus self READY w1 in Some (getStatus self w2, w2)))"

definition SubsystemManager_start ::
    "nat \<Rightarrow> env \<Rightarrow> int \<Rightarrow> sid \<Rightarrow> manager \<Rightarrow> world \<Rightarrow> (Status \<times> world) option" where
  "SubsystemManager_start n E depth0 self m w =
     (case run_specs n E (specs m) (specs m) RUNNING depth0 w of
        None \<Rightarrow> None
      | Some w1 \<Rightarrow> (let w2 = setStatus self RUNNING w1 in Some (getStatus self w2, w2)))"

text \<open>
  When \<^verbatim>\<open>setup()\<close> of a subsystem always leaves it \<^verbatim>\<open>READY\<close>, and when its \<^verbatim>\<open>start()\<close>
  leaves a \<^verbatim>\<open>READY\<close> subsystem \<^verbatim>\<open>RUNNING\<close>: always for a tickable one, when the scheduler
  creates the thread for a threaded one.
\<close>

definition setup_succeeds :: "env \<Rightarrow> sid \<Rightarrow> bool" where
  "setup_succeeds E s = (\<forall>w. setup_impl E s w = READY)"

definition start_succeeds :: "env \<Rightarrow> sid \<Rightarrow> bool" where
  "start_succeeds E s =
     (case kind_of E s of
        Tickable \<Rightarrow> True
      | Threaded \<Rightarrow> (\<forall>w. xTaskCreateStaticPinnedToCore E s w \<noteq> None)
      | Direct \<Rightarrow> (\<forall>w. start_impl E s w = RUNNING))"

text \<open>The two statuses in which the manager leaves a subsystem alone.\<close>

definition terminal :: "Status \<Rightarrow> bool" where
  "terminal st = (st = FAULT \<or> st = STOPPED)"

text \<open>Registration of a sequence of specs, first to last.\<close>

definition register_all :: "manager \<Rightarrow> Spec list \<Rightarrow> manager" where
  "register_all m regs = foldl (\<lambda>m sp. addSubsystem (Some sp) m) m regs"

text \<open>
  A spec as the header tells a subsystem to build it: the owner and a null-terminated
  array of dependencies. The six orders in which three specs can be registered.
\<close>

definition spec_of :: "sid \<Rightarrow> sid list \<Rightarrow> Spec" where
  "spec_of s ds = \<lparr>subsystem = Some s, deps = Some ds\<rparr>"

definition orders3 :: "'a \<Rightarrow> 'a \<Rightarrow> 'a \<Rightarrow> 'a list list" where
  "orders3 x y z = [[x, y, z], [x, z, y], [y, x, z], [y, z, x], [z, x, y], [z, y, x]]"

subsection \<open>Concrete subsystems for the examples\<close>

definition env0 :: env where
  "env0 = \<lparr>kind_of = (\<lambda>s. if s = 3 then Threaded else Tickable),
           setup_impl = (\<lambda>s w. READY),
           start_impl = (\<lambda>s w. RUNNING),
           xTaskCreateStaticPinnedToCore = (\<lambda>s w. Some (100 + s))\<rparr>"

definition env_nothread :: env where
  "env_nothread = env0\<lparr>xTaskCreateStaticPinnedToCore := (\<lambda>s w. None)\<rparr>"

definition world0 :: world where
  "world0 = \<lparr>status = (\<lambda>s. INIT), taskHandle = (\<lambda>s. None), tasks = [], calls = []\<rparr>"

definition manager0 :: manager where
  "manager0 = \<lparr>setup_flag = False, specs = []\<rparr>"

text \<open>A cycle: 1 depends on 2 and 2 depends on 1.\<close>

definition cycA :: Spec where
  "cycA = spec_of 1 [2]"

definition cycB :: Spec where
  "cycB = spec_of 2 [1]"

text \<open>A chain: 1 depends on 2, 2 depends on 3, 3 depends on nothing.\<close>

definition chainA :: Spec where
  "chainA = spec_of 1 [2]"

definition chainB :: Spec where
  "chainB = spec_of 2 [3]"

definition chainC :: Spec where
  "chainC = spec_of 3 []"

definition chain :: "Spec list" where
  "chain = [chainC, chainB, chainA]"

text \<open>
  States in which subsystem 1 is already \<^verbatim>\<open>READY\<close>, in which it is in \<^verbatim>\<open>FAULT\<close>, and in
  which the threaded subsystem 3 is in \<^verbatim>\<open>FAULT\<close> with the handle of an earlier thread.
\<close>

definition world_ready1 :: world where
  "world_ready1 = world0\<lparr>status := (status world0)(1 := READY)\<rparr>"

definition world_fault1 :: world where
  "world_fault1 = world0\<lparr>status := (status world0)(1 := FAULT)\<rparr>"

definition world_stale3 :: world where
  "world_stale3 = world0\<lparr>status := (status world0)(3 := FAULT),
                         taskHandle := (taskHandle world0)(3 := Some 103)\<rparr>"

section \<open>The data container (DataThing)\<close>

text \<open>
  \<^verbatim>\<open>struct callback\<close>: the two pointers. \<^verbatim>\<open>DataThing<T>\<close>: the counter, the array of
  \<^verbatim>\<open>MAX_CALLBACKS\<close> slots (\<open>None\<close> is a slot that was never written) and the data. The
  lock calls of the member functions are paired within each function; the functions
  are modelled as they run on one thread.
\<close>

record callback =
  args :: nat
  fn :: nat

record 't DataThing =
  numCallbacks :: int
  callbacks :: "callback option list"
  data :: 't

definition MAX_CALLBACKS :: nat where
  "MAX_CALLBACKS = 8"

text \<open>The constructor: \<^verbatim>\<open>numCallbacks(0)\<close>, the array is left as it is.\<close>

definition DataThing_new :: "'t \<Rightarrow> 't DataThing" where
  "DataThing_new x = \<lparr>numCallbacks = 0, callbacks = replicate MAX_CALLBACKS None, data = x\<rparr>"

text \<open>\<^verbatim>\<open>DataThing::registerCallback\<close>; it returns nothing.\<close>

definition registerCallback :: "nat \<Rightarrow> nat \<Rightarrow> 't DataThing \<Rightarrow> 't DataThing" where
  "registerCallback f a d =
     (if numCallbacks d = int MAX_CALLBACKS then d
      else
        (let cb = \<lparr>args = a, fn = f\<rparr>
         in d\<lparr>callbacks := (callbacks d)[nat (numCallbacks d) := Some cb],
              numCallbacks := numCallbacks d + 1\<rparr>))"

text \<open>
  \<^verbatim>\<open>DataThing::callCallbacks\<close>: the callbacks it invokes, in order. \<open>callCallbacks_loop\<close>
  is the \<^verbatim>\<open>for\<close> loop from index \<open>i\<close> with \<open>k\<close> iterations left; reading a slot
  outside the array or one that was never written has no defined result (\<open>None\<close>).
\<close>

fun callCallbacks_loop :: "callback option list \<Rightarrow> nat \<Rightarrow> nat \<Rightarrow> callback list option" where
  "callCallbacks_loop cbs i 0 = Some []"
| "callCallbacks_loop cbs i (Suc k) =
     (if i < length cbs
      then (case cbs ! i of
              None \<Rightarrow> None
            | Some cb \<Rightarrow>
                (case callCallbacks_loop cbs (Suc i) k of
                   None \<Rightarrow> None
                 | Some rest \<Rightarrow> Some (cb # rest)))
      else None)"

definition callCallbacks :: "'t DataThing \<Rightarrow> callback list option" where
  "callCallbacks d = (let n = numCallbacks d in callCallbacks_loop (callbacks d) 0 (nat n))"

text \<open>A sequence of \<^verbatim>\<open>registerCallback\<close> calls, first to last.\<close>

definition register_callbacks :: "'t DataThing \<Rightarrow> (nat \<times> nat) list \<Rightarrow> 't DataThing" where
  "register_callbacks d regs = foldl (\<lambda>d (f, a). registerCallback f a d) d regs"

text \<open>The \<^verbatim>\<open>callback\<close> that a registration of \<open>(fn, args)\<close> stores.\<close>

definition mk_callback :: "nat \<times> nat \<Rightarrow> callback" where
  "mk_callback r = \<lparr>args = snd r, fn = fst r\<rparr>"

text \<open>Nine registrations, for the examples.\<close>

definition nine_registrations :: "(nat \<times> nat) list" where
  "nine_registrations =
     [(1, 11), (2, 12), (3, 13), (4, 14), (5, 15), (6, 16), (7, 17), (8, 18), (9, 19)]"

section \<open>The reader/writer lock (ReadWriteLock)\<close>

definition MAX_READERS :: nat where
  "MAX_READERS = 8"

text \<open>
  Modelled from the spec: the scheduler's semaphores (\<^verbatim>\<open>xSemaphoreTake\<close> with
  \<^verbatim>\<open>portMAX_DELAY\<close>, \<^verbatim>\<open>xSemaphoreGive\<close>) are not among the sources. A semaphore is its
  count. Taking "blocks (indefinitely) until one slot is available, then consumes it":
  \<open>None\<close> says that the caller cannot proceed now. Giving "returns one slot", up to
  the capacity the semaphore was created with. Each is one atomic action.
\<close>

definition xSemaphoreTake :: "nat \<Rightarrow> nat option" where
  "xSemaphoreTake c = (if 0 < c then Some (c - 1) else None)"

definition xSemaphoreGive :: "nat \<Rightarrow> nat \<Rightarrow> nat" where
  "xSemaphoreGive cap c = (if c < cap then c + 1 else c)"

text \<open>
  A thread with respect to one lock. \<open>pc\<close> says where it stands: outside of
  \<^verbatim>\<open>Lock()\<close> and \<^verbatim>\<open>UnLock()\<close>; inside \<^verbatim>\<open>Lock()\<close> with the mutex and with loop counter
  \<^verbatim>\<open>count\<close>; inside \<^verbatim>\<open>UnLock()\<close> with loop counter \<^verbatim>\<open>count\<close>. The two counters say what it
  holds: \<open>reads\<close> is the number of its \<^verbatim>\<open>RLock()\<close> calls that returned, less its
  \<^verbatim>\<open>RUnlock()\<close> calls since; \<open>writes\<close> is the number of its \<^verbatim>\<open>Lock()\<close> calls that returned,
  less its \<^verbatim>\<open>UnLock()\<close> calls since. Neither goes below zero: a thread that releases
  what it does not hold holds nothing afterwards.
\<close>

datatype pc = Idle | InLock nat | InUnLock nat

record thread =
  reads :: nat
  writes :: nat
  pc :: pc

text \<open>
  One \<^verbatim>\<open>ReadWriteLock\<close> (the counts of \<^verbatim>\<open>sem\<close> and of \<^verbatim>\<open>mutex\<close>) and the threads that
  use it. The constructor creates \<^verbatim>\<open>sem\<close> with \<^verbatim>\<open>MAX_READERS\<close> slots, all available, and
  the mutex available.
\<close>

record system =
  sem :: nat
  mutex :: nat
  threads :: "thread list"

definition ReadWriteLock_new :: "nat \<Rightarrow> system" where
  "ReadWriteLock_new n =
     \<lparr>sem = MAX_READERS, mutex = 1,
      threads = replicate n \<lparr>reads = 0, writes = 0, pc = Idle\<rparr>\<rparr>"

text \<open>
  One atomic action of thread \<open>i\<close> in the member function \<open>a\<close>; \<open>None\<close> when the
  thread cannot take it now: it waits in a take, or it is inside another member
  function (a thread runs one call at a time). The lock does not record who holds
  what: any thread may call any of the four functions, and the gives happen whoever
  calls.
  \<^item> \<^verbatim>\<open>RLock()\<close>: the take of \<^verbatim>\<open>sem\<close>.
  \<^item> \<^verbatim>\<open>RUnlock()\<close>: the give of \<^verbatim>\<open>sem\<close>.
  \<^item> \<^verbatim>\<open>Lock()\<close>: the take of \<^verbatim>\<open>mutex\<close>; then one take of \<^verbatim>\<open>sem\<close> for each round of the
    loop; the return when \<^verbatim>\<open>count < MAX_READERS\<close> fails.
  \<^item> \<^verbatim>\<open>UnLock()\<close>: the entry; one give of \<^verbatim>\<open>sem\<close> for each round of the loop; the give
    of \<^verbatim>\<open>mutex\<close> when \<^verbatim>\<open>count < MAX_READERS\<close> fails.
\<close>

datatype action = RLock | RUnlock | Lock | UnLock

definition set_thread :: "nat \<Rightarrow> thread \<Rightarrow> system \<Rightarrow> system" where
  "set_thread i t s = s\<lparr>threads := (threads s)[i := t]\<rparr>"

definition step :: "action \<Rightarrow> nat \<Rightarrow> system \<Rightarrow> system option" where
  "step a i s =
     (if i < length (threads s)
      then
        (let t = threads s ! i
         in case a of
              RLock \<Rightarrow>
                (case pc t of
                   Idle \<Rightarrow>
                     (case xSemaphoreTake (sem s) of
                        None \<Rightarrow> None
                      | Some c \<Rightarrow> Some (set_thread i (t\<lparr>reads := reads t + 1\<rparr>) (s\<lparr>sem := c\<rparr>)))
                 | InLock count \<Rightarrow> None
                 | InUnLock count \<Rightarrow> None)
            | RUnlock \<Rightarrow>
                (case pc t of
                   Idle \<Rightarrow>
                     Some (set_thread i (t\<lparr>reads := reads t - 1\<rparr>)
                             (s\<lparr>sem := xSemaphoreGive MAX_READERS (sem s)\<rparr>))
                 | InLock count \<Rightarrow> None
                 | InUnLock count \<Rightarrow> None)
            | Lock \<Rightarrow>
                (case pc t of
                   Idle \<Rightarrow>
                     (case xSemaphoreTake (mutex s) of
                        None \<Rightarrow> None
                      | Some m \<Rightarrow> Some (set_thread i (t\<lparr>pc := InLock 0\<rparr>) (s\<lparr>mutex := m\<rparr>)))
                 | InLock count \<Rightarrow>
                     (if count < MAX_READERS
                      then (case xSemaphoreTake (sem s) of
                              None \<Rightarrow> None
                            | Some c \<Rightarrow>
                                Some (set_thread i (t\<lparr>pc := InLock (count + 1)\<rparr>)
                                        (s\<lparr>sem := c\<rparr>)))
                      else Some (set_thread i (t\<lparr>writes := writes t + 1, pc := Idle\<rparr>) s))
                 | InUnLock count \<Rightarrow> None)
            | UnLock \<Rightarrow>
                (case pc t of
                   Idle \<Rightarrow>
                     Some (set_thread i (t\<lparr>writes := writes t - 1, pc := InUnLock 0\<rparr>) s)
                 | InLock count \<Rightarrow> None
                 | InUnLock count \<Rightarrow>
                     (if count < MAX_READERS
                      then Some (set_thread i (t\<lparr>pc := InUnLock (count + 1)\<rparr>)
                                   (s\<lparr>sem := xSemaphoreGive MAX_READERS (sem s)\<rparr>))
                      else Some (set_thread i (t\<lparr>pc := Idle\<rparr>)
                                   (s\<lparr>mutex := xSemaphoreGive 1 (mutex s)\<rparr>)))))
      else None)"

text \<open>An interleaving: the actions in the order in which the scheduler lets them happen.\<close>

fun run :: "system \<Rightarrow> (nat \<times> action) list \<Rightarrow> system option" where
  "run s [] = Some s"
| "run s ((i, a) # rest) =
     (case step a i s of
        None \<Rightarrow> None
      | Some s1 \<Rightarrow> run s1 rest)"

text \<open>
  Paired use of the lock: a thread calls \<^verbatim>\<open>RUnlock()\<close> when it holds a read slot and
  calls \<^verbatim>\<open>UnLock()\<close> when it holds the write lock. \<open>call_paired\<close> is that condition on
  the thread that takes an action (the rounds inside \<^verbatim>\<open>UnLock()\<close> belong to a call
  already made); \<open>paired\<close> says that an interleaving runs and that every action in it
  meets the condition.
\<close>

definition call_paired :: "action \<Rightarrow> thread \<Rightarrow> bool" where
  "call_paired a t =
     (case a of
        RLock \<Rightarrow> True
      | RUnlock \<Rightarrow> 0 < reads t
      | Lock \<Rightarrow> True
      | UnLock \<Rightarrow>
          (case pc t of
             Idle \<Rightarrow> 0 < writes t
           | InLock count \<Rightarrow> True
           | InUnLock count \<Rightarrow> True))"

fun paired :: "system \<Rightarrow> (nat \<times> action) list \<Rightarrow> bool" where
  "paired s [] = True"
| "paired s ((i, a) # rest) =
     (case step a i s of
        None \<Rightarrow> False
      | Some s1 \<Rightarrow> call_paired a (threads s ! i) \<and> paired s1 rest)"

text \<open>The threads that hold the write lock, and the threads that hold a read slot.\<close>

definition write_holders :: "system \<Rightarrow> thread list" where
  "write_holders s = filter (\<lambda>t. 0 < writes t) (threads s)"

definition read_holders :: "system \<Rightarrow> thread list" where
  "read_holders s = filter (\<lambda>t. 0 < reads t) (threads s)"

text \<open>
  The slots of \<^verbatim>\<open>sem\<close> that a thread has taken and not given back under paired use,
  and the balance that every action of paired use keeps: the available slots and the
  taken ones add up to \<^verbatim>\<open>MAX_READERS\<close>.
\<close>

definition held :: "thread \<Rightarrow> nat" where
  "held t =
     reads t + MAX_READERS * writes t
     + (case pc t of
          Idle \<Rightarrow> 0
        | InLock count \<Rightarrow> count
        | InUnLock count \<Rightarrow> MAX_READERS - count)"

definition balanced :: "system \<Rightarrow> bool" where
  "balanced s = (sem s + sum_list (map held (threads s)) = MAX_READERS)"

text \<open>
  The lock actions of thread \<open>i\<close> in \<^verbatim>\<open>BaseSubsystem::getStatus\<close> (\<^verbatim>\<open>RLock()\<close>,
  \<^verbatim>\<open>RUnlock()\<close>) and in \<^verbatim>\<open>BaseSubsystem::setStatus\<close> (\<^verbatim>\<open>Lock()\<close>: the mutex, eight slots
  and the return; \<^verbatim>\<open>UnLock()\<close>: the entry, eight slots and the mutex).
\<close>

definition getStatus_actions :: "nat \<Rightarrow> (nat \<times> action) list" where
  "getStatus_actions i = [(i, RLock), (i, RUnlock)]"

definition setStatus_actions :: "nat \<Rightarrow> (nat \<times> action) list" where
  "setStatus_actions i =
     [(i, Lock), (i, Lock), (i, Lock), (i, Lock), (i, Lock),
      (i, Lock), (i, Lock), (i, Lock), (i, Lock), (i, Lock),
      (i, UnLock), (i, UnLock), (i, UnLock), (i, UnLock), (i, UnLock),
      (i, UnLock), (i, UnLock), (i, UnLock), (i, UnLock), (i, UnLock)]"

text \<open>
  A paired interleaving of three threads: 0 and 1 take read slots; 2 enters \<^verbatim>\<open>Lock()\<close>,
  takes the mutex and the six slots that are left; 0 and 1 release; 2 takes the last
  two slots and returns from \<^verbatim>\<open>Lock()\<close>. The state it leads to.
\<close>

definition example_schedule :: "(nat \<times> action) list" where
  "example_schedule =
     [(0, RLock), (1, RLock),
      (2, Lock), (2, Lock), (2, Lock), (2, Lock), (2, Lock), (2, Lock), (2, Lock),
      (0, RUnlock), (1, RUnlock),
      (2, Lock), (2, Lock), (2, Lock)]"

definition example_final :: system where
  "example_final =
     \<lparr>sem = 0, mutex = 0,
      threads = [\<lparr>reads = 0, writes = 0, pc = Idle\<rparr>, \<lparr>reads = 0, writes = 0, pc = Idle\<rparr>,
                 \<lparr>reads = 0, writes = 1, pc = Idle\<rparr>]\<rparr>"

text \<open>
  An interleaving of two threads that is not paired: 0 takes the write lock (the
  mutex, eight slots, the return); 1 calls \<^verbatim>\<open>RUnlock()\<close> with no read slot, then
  \<^verbatim>\<open>RLock()\<close>. The state it leads to.
\<close>

definition unpaired_schedule :: "(nat \<times> action) list" where
  "unpaired_schedule =
     [(0, Lock), (0, Lock), (0, Lock), (0, Lock), (0, Lock),
      (0, Lock), (0, Lock), (0, Lock), (0, Lock), (0, Lock),
      (1, RUnlock), (1, RLock)]"

definition unpaired_final :: system where
  "unpaired_final =
     \<lparr>sem = 0, mutex = 0,
      threads = [\<lparr>reads = 0, writes = 1, pc = Idle\<rparr>, \<lparr>reads = 1, writes = 0, pc = Idle\<rparr>]\<rparr>"

section \<open>Properties of the lifecycle operations\<close>

lemmas chain_defs = chain_def chainA_def chainB_def chainC_def spec_of_def

lemmas fuel_numerals = numeral_2_eq_2 numeral_3_eq_3

lemmas world_defs = world0_def world_ready1_def world_fault1_def world_stale3_def

text \<open>
  C9. \<^verbatim>\<open>TickableSubsystem::start()\<close>, for every prior status of the subsystem, sets its
  status to \<^verbatim>\<open>RUNNING\<close> and returns \<^verbatim>\<open>RUNNING\<close>.
\<close>

theorem C9_tickable_start_running:
  "fst (TickableSubsystem_start s w) = RUNNING
   \<and> getStatus s (snd (TickableSubsystem_start s w)) = RUNNING"
  by (simp add: TickableSubsystem_start_def getStatus_def setStatus_def)

text \<open>
  C7. When the status is not \<^verbatim>\<open>FAULT\<close>, \<^verbatim>\<open>ThreadedSubsystem::start()\<close> requests the worker
  thread (one more entry in \<open>tasks\<close>, the returned handle stored); the status becomes
  \<^verbatim>\<open>FAULT\<close> if no thread was created and \<^verbatim>\<open>RUNNING\<close> otherwise, and the call returns the
  resulting status.
\<close>

theorem C7_threaded_start:
  assumes "getStatus s w \<noteq> FAULT"
  shows "tasks (snd (ThreadedSubsystem_start E s w)) = tasks w @ [s]
         \<and> taskHandle (snd (ThreadedSubsystem_start E s w)) s = xTaskCreateStaticPinnedToCore E s w
         \<and> getStatus s (snd (ThreadedSubsystem_start E s w))
             = (if xTaskCreateStaticPinnedToCore E s w = None then FAULT else RUNNING)
         \<and> fst (ThreadedSubsystem_start E s w) = getStatus s (snd (ThreadedSubsystem_start E s w))"
  using assms by (auto simp: ThreadedSubsystem_start_def getStatus_def setStatus_def Let_def)

theorem C7_threaded_start_witness:
  "getStatus 3 world0 \<noteq> FAULT
   \<and> tasks (snd (ThreadedSubsystem_start env_nothread 3 world0)) = [3]
   \<and> getStatus 3 (snd (ThreadedSubsystem_start env_nothread 3 world0)) = FAULT
   \<and> fst (ThreadedSubsystem_start env_nothread 3 world0) = FAULT
   \<and> getStatus 3 (snd (ThreadedSubsystem_start env0 3 world0)) = RUNNING
   \<and> fst (ThreadedSubsystem_start env0 3 world0) = RUNNING"
proof -
  have h: "getStatus 3 world0 \<noteq> FAULT"
    by (simp add: getStatus_def world0_def)
  show ?thesis
    using h C7_threaded_start [OF h, of env_nothread] C7_threaded_start [OF h, of env0]
    by (simp add: env_nothread_def env0_def world0_def)
qed

text \<open>
  C10. When \<^verbatim>\<open>ThreadedSubsystem::start()\<close> is called with the status \<^verbatim>\<open>FAULT\<close> and a
  non-null \<^verbatim>\<open>taskHandle\<close>, no thread is requested, the status is set to \<^verbatim>\<open>RUNNING\<close> and
  \<^verbatim>\<open>RUNNING\<close> is returned.
\<close>

theorem C10_threaded_start_overwrites_fault:
  assumes "getStatus s w = FAULT" and "taskHandle w s = Some h"
  shows "tasks (snd (ThreadedSubsystem_start E s w)) = tasks w
         \<and> taskHandle (snd (ThreadedSubsystem_start E s w)) = taskHandle w
         \<and> getStatus s (snd (ThreadedSubsystem_start E s w)) = RUNNING
         \<and> fst (ThreadedSubsystem_start E s w) = RUNNING"
  using assms by (auto simp: ThreadedSubsystem_start_def getStatus_def setStatus_def Let_def)

theorem C10_threaded_start_overwrites_fault_witness:
  "getStatus 3 world_stale3 = FAULT \<and> taskHandle world_stale3 3 = Some 103
   \<and> tasks (snd (ThreadedSubsystem_start env0 3 world_stale3)) = []
   \<and> getStatus 3 (snd (ThreadedSubsystem_start env0 3 world_stale3)) = RUNNING
   \<and> fst (ThreadedSubsystem_start env0 3 world_stale3) = RUNNING"
proof -
  have h1: "getStatus 3 world_stale3 = FAULT"
    by (simp add: getStatus_def world_defs)
  have h2: "taskHandle world_stale3 3 = Some 103"
    by (simp add: world_defs)
  show ?thesis
    using h1 h2 C10_threaded_start_overwrites_fault [OF h1 h2, of env0]
    by (simp add: world_defs)
qed

section \<open>Properties of the recursive bring-up\<close>

subsection \<open>What the virtual calls change\<close>

lemma status_call_setup:
  "status (call_setup E s w) x =
     (if x = s then setup_impl E s (w\<lparr>calls := calls w @ [Setup s]\<rparr>) else status w x)"
  by (simp add: call_setup_def setStatus_def Let_def)

lemma status_call_start_other:
  "x \<noteq> s \<Longrightarrow> status (call_start E s w) x = status w x"
  by (simp add: call_start_def setStatus_def getStatus_def Let_def TickableSubsystem_start_def
      ThreadedSubsystem_start_def split: kind.splits)

lemma calls_call_setup: "calls (call_setup E s w) = calls w @ [Setup s]"
  by (simp add: call_setup_def setStatus_def Let_def)

lemma calls_call_start: "calls (call_start E s w) = calls w @ [Start s]"
  by (simp add: call_start_def setStatus_def getStatus_def Let_def TickableSubsystem_start_def
      ThreadedSubsystem_start_def split: kind.splits)

subsection \<open>The bound on the nesting\<close>

text \<open>
  A call that returns within a bound on the nesting returns the same state within
  every larger bound.
\<close>

lemma more_nesting_Suc:
  "descendAndStartOrSetup n E sps spec desiredState depth w = Some w' \<Longrightarrow>
     descendAndStartOrSetup (Suc n) E sps spec desiredState depth w = Some w'"
  "descend_deps n E sps ds desiredState depth w = Some w' \<Longrightarrow>
     descend_deps (Suc n) E sps ds desiredState depth w = Some w'"
proof (induction n E sps spec desiredState depth w and n E sps ds desiredState depth w
    arbitrary: w' and w' rule: descendAndStartOrSetup_descend_deps.induct)
  case (1 E sps spec desiredState depth w)
  then show ?case by simp
next
  case (2 n E sps spec desiredState depth w)
  show ?case
  proof (cases spec)
    case None
    with "2.prems" show ?thesis by simp
  next
    case (Some sp)
    note sp = this
    show ?thesis
    proof (cases "subsystem sp")
      case None
      with sp "2.prems" show ?thesis by simp
    next
      case (Some sub)
      note sub = this
      show ?thesis
      proof (cases "sps = []")
        case True
        with sp sub "2.prems" show ?thesis by simp
      next
        case False
        from "2.prems"(1) sp sub False obtain w1 where
          w1: "descend_deps n E sps (case deps sp of None \<Rightarrow> [] | Some ds \<Rightarrow> ds)
                 desiredState depth w = Some w1"
          by (auto split: option.splits)
        from "2.IH" [OF sp sub False w1]
        have "descend_deps (Suc n) E sps (case deps sp of None \<Rightarrow> [] | Some ds \<Rightarrow> ds)
                 desiredState depth w = Some w1" .
        with "2.prems" sp sub False w1 show ?thesis
          by (simp del: descend_deps.simps)
      qed
    qed
  qed
next
  case (3 n E sps desiredState depth w)
  then show ?case by simp
next
  case (4 n E sps d ds desiredState depth w)
  show ?case
  proof (cases "depth < 8")
    case False
    with "4.prems" show ?thesis by simp
  next
    case True
    from "4.prems"(1) True obtain w1 where
      w1: "descendAndStartOrSetup n E sps (findSpecBySubsystem sps d) desiredState depth w
             = Some w1"
      and rest: "descend_deps n E sps ds desiredState (depth + 1) w1 = Some w'"
      by (auto split: option.splits)
    from "4.IH"(1) [OF True w1]
    have a: "descendAndStartOrSetup (Suc n) E sps (findSpecBySubsystem sps d) desiredState depth w
             = Some w1" .
    from "4.IH"(2) [OF True w1 rest]
    have b: "descend_deps (Suc n) E sps ds desiredState (depth + 1) w1 = Some w'" .
    from True a b show ?thesis
      by (simp del: descendAndStartOrSetup.simps)
  qed
qed

lemma more_nesting:
  "descendAndStartOrSetup n E sps spec desiredState depth w = Some w' \<Longrightarrow>
     descendAndStartOrSetup (n + k) E sps spec desiredState depth w = Some w'"
  by (induction k) (simp_all add: more_nesting_Suc(1) del: descendAndStartOrSetup.simps)

subsection \<open>The cycle\<close>

lemma cycle_specs: "specs (register_all manager0 [cycA, cycB]) = [cycB, cycA]"
  by (simp add: register_all_def addSubsystem_def manager0_def cycA_def cycB_def spec_of_def)

lemma cycle_never_returns:
  "depth < 8 \<Longrightarrow>
   descendAndStartOrSetup n E [cycB, cycA] (Some cycA) desiredState depth w = None
   \<and> descendAndStartOrSetup n E [cycB, cycA] (Some cycB) desiredState depth w = None"
proof (induction n arbitrary: w)
  case 0
  show ?case by simp
next
  case (Suc n)
  then show ?case by (simp add: cycA_def cycB_def spec_of_def)
qed

text \<open>
  C1. Subsystem 1 depends on 2 and 2 depends on 1, both registered. The claim is that
  the manager's \<^verbatim>\<open>setup()\<close> returns, stopped by the depth bound. In the code the call
  for a first dependency receives the same \<^verbatim>\<open>depth\<close> as its caller, so no number of
  nested activations suffices: \<^verbatim>\<open>setup()\<close> does not return.
\<close>

theorem C1_cycle_setup_never_returns:
  "SubsystemManager_setup n E 0 self (register_all manager0 [cycA, cycB]) w = None"
proof -
  have "descendAndStartOrSetup n E [cycB, cycA] (Some cycB) READY 0 w = None"
    using cycle_never_returns [of 0 n E READY w] by simp
  then show ?thesis
    by (simp add: SubsystemManager_setup_def cycle_specs) (simp add: cycB_def spec_of_def)
qed

subsection \<open>The depth bound\<close>

text \<open>
  C2, as the claim states it: a call with \<^verbatim>\<open>depth\<close> 9 would return at once. Here the
  owner's \<^verbatim>\<open>setup()\<close> is called.
\<close>

theorem C2_depth_counterexample:
  "map_option calls (descendAndStartOrSetup 1 env0 chain (Some chainA) READY 9 world0)
     = Some [Setup 1]"
  by (simp add: chain_defs env0_def world0_def getStatus_def setStatus_def call_setup_def)

text \<open>
  C2, amended. A call with \<^verbatim>\<open>depth\<close> 8 or more (spec, owner and list present) does not
  recurse into the dependencies; it reads the owner's status and calls \<^verbatim>\<open>setup()\<close> or
  \<^verbatim>\<open>start()\<close> of the owner as the status rule says.
\<close>

theorem C2_depth_bound_guards_recursion_only:
  assumes "8 \<le> depth" and "subsystem sp = Some sub" and "sps \<noteq> []"
  shows "descendAndStartOrSetup (Suc n) E sps (Some sp) desiredState depth w =
     Some (let st = getStatus sub w
           in if st = desiredState \<or> st = FAULT \<or> st = STOPPED then w
              else if desiredState = READY \<and> st = INIT then call_setup E sub w
              else if desiredState = RUNNING \<and> st = READY then call_start E sub w
              else w)"
proof -
  have "descend_deps n E sps ds desiredState depth w = Some w" for ds
    using assms(1) by (cases ds) simp_all
  with assms show ?thesis by (simp add: Let_def)
qed

theorem C2_depth_bound_guards_recursion_only_witness:
  "(8::int) \<le> 9 \<and> subsystem chainA = Some 1 \<and> chain \<noteq> []
   \<and> descendAndStartOrSetup (Suc 0) env0 chain (Some chainA) READY 9 world0
       = Some (call_setup env0 1 world0)"
  using C2_depth_bound_guards_recursion_only [of 9 chainA 1 chain 0 env0 READY world0]
  by (simp add: chain_defs world0_def getStatus_def)

subsection \<open>The order of recursion and status check\<close>







subsection \<open>Fault and Stopped are kept\<close>

text \<open>
  No call of the procedure, on whatever spec, changes the status of a subsystem that
  is in \<^verbatim>\<open>FAULT\<close> or \<^verbatim>\<open>STOPPED\<close>: by induction over the calls, the loop over the
  dependencies included.
\<close>

lemma terminal_kept:
  "descendAndStartOrSetup n E sps spec desiredState depth w = Some w' \<Longrightarrow>
     terminal (status w x) \<Longrightarrow> status w' x = status w x"
  "descend_deps n E sps ds desiredState depth w = Some w' \<Longrightarrow>
     terminal (status w x) \<Longrightarrow> status w' x = status w x"
proof (induction n E sps spec desiredState depth w and n E sps ds desiredState depth w
    arbitrary: w' and w' rule: descendAndStartOrSetup_descend_deps.induct)
  case (1 E sps spec desiredState depth w)
  then show ?case by simp
next
  case (2 n E sps spec desiredState depth w)
  show ?case
  proof (cases spec)
    case None
    with "2.prems" show ?thesis by simp
  next
    case (Some sp)
    note sp = this
    show ?thesis
    proof (cases "subsystem sp")
      case None
      with sp "2.prems" show ?thesis by simp
    next
      case (Some sub)
      note sub = this
      show ?thesis
      proof (cases "sps = []")
        case True
        with sp sub "2.prems" show ?thesis by simp
      next
        case False
        from "2.prems"(1) sp sub False obtain w1 where
          w1: "descend_deps n E sps (case deps sp of None \<Rightarrow> [] | Some ds \<Rightarrow> ds)
                 desiredState depth w = Some w1"
          by (auto split: option.splits)
        from "2.IH" [OF sp sub False w1 "2.prems"(2)]
        have keep: "status w1 x = status w x" .
        show ?thesis
        proof (cases "x = sub")
          case True
          with "2.prems" sp sub False w1 keep show ?thesis
            by (auto simp: Let_def getStatus_def terminal_def split: if_splits)
        next
          case other: False
          with "2.prems" sp sub False w1 keep show ?thesis
            by (auto simp: Let_def status_call_setup status_call_start_other split: if_splits)
        qed
      qed
    qed
  qed
next
  case (3 n E sps desiredState depth w)
  then show ?case by simp
next
  case (4 n E sps d ds desiredState depth w)
  show ?case
  proof (cases "depth < 8")
    case False
    with "4.prems" show ?thesis by simp
  next
    case True
    from "4.prems"(1) True obtain w1 where
      w1: "descendAndStartOrSetup n E sps (findSpecBySubsystem sps d) desiredState depth w
             = Some w1"
      and rest: "descend_deps n E sps ds desiredState (depth + 1) w1 = Some w'"
      by (auto split: option.splits)
    from "4.IH"(1) [OF True w1 "4.prems"(2)] have k1: "status w1 x = status w x" .
    from "4.prems"(2) k1 have "terminal (status w1 x)" by simp
    from "4.IH"(2) [OF True w1 rest this] k1 show ?thesis by simp
  qed
qed

text \<open>
  C4. When the owner of a spec is in \<^verbatim>\<open>FAULT\<close> or \<^verbatim>\<open>STOPPED\<close>, a call of the procedure on
  that spec leaves the owner's status as it was, for every target.
\<close>

theorem C4_fault_stopped_kept:
  assumes "descendAndStartOrSetup n E sps (Some sp) desiredState depth w = Some w'"
      and "subsystem sp = Some sub"
      and "getStatus sub w = FAULT \<or> getStatus sub w = STOPPED"
  shows "getStatus sub w' = getStatus sub w"
  using terminal_kept(1) [OF assms(1), of sub] assms(3)
  by (simp add: getStatus_def terminal_def)

theorem C4_fault_stopped_kept_witness:
  "descendAndStartOrSetup 3 env0 chain (Some chainA) READY 0 world_fault1
     = Some (call_setup env0 2 (call_setup env0 3 world_fault1))
   \<and> subsystem chainA = Some 1
   \<and> getStatus 1 world_fault1 = FAULT
   \<and> getStatus 1 (call_setup env0 2 (call_setup env0 3 world_fault1)) = FAULT"
proof -
  have r: "descendAndStartOrSetup 3 env0 chain (Some chainA) READY 0 world_fault1
             = Some (call_setup env0 2 (call_setup env0 3 world_fault1))"
    by (simp add: fuel_numerals chain_defs env0_def world_defs getStatus_def setStatus_def
        call_setup_def)
  have a: "subsystem chainA = Some 1"
    by (simp add: chainA_def spec_of_def)
  have f: "getStatus 1 world_fault1 = FAULT"
    by (simp add: getStatus_def world_defs)
  from C4_fault_stopped_kept [OF r a] f
  have "getStatus 1 (call_setup env0 2 (call_setup env0 3 world_fault1)) = FAULT"
    by simp
  with r a f show ?thesis by simp
qed

subsection \<open>The chain\<close>

lemma status_call_setup_ok:
  "setup_succeeds E s \<Longrightarrow> status (call_setup E s w) = (status w)(s := READY)"
  by (simp add: call_setup_def setStatus_def setup_succeeds_def Let_def)

lemma status_call_start_ok:
  "start_succeeds E s \<Longrightarrow> status w s = READY \<Longrightarrow>
   status (call_start E s w) = (status w)(s := RUNNING)"
proof (cases "kind_of E s")
  case Tickable
  then show ?thesis
    by (simp add: call_start_def setStatus_def getStatus_def Let_def TickableSubsystem_start_def)
next
  case Threaded
  assume "start_succeeds E s" and r: "status w s = READY"
  with Threaded
  have "xTaskCreateStaticPinnedToCore E s (w\<lparr>calls := calls w @ [Start s]\<rparr>) \<noteq> None"
    by (simp add: start_succeeds_def)
  then obtain h where
    "xTaskCreateStaticPinnedToCore E s (w\<lparr>calls := calls w @ [Start s]\<rparr>) = Some h"
    by auto
  with Threaded r show ?thesis
    by (simp add: call_start_def setStatus_def getStatus_def Let_def ThreadedSubsystem_start_def)
next
  case Direct
  assume "start_succeeds E s"
  with Direct show ?thesis
    by (simp add: call_start_def setStatus_def start_succeeds_def Let_def)
qed

lemma status_setStatus: "status (setStatus s st w) = (status w)(s := st)"
  by (simp add: setStatus_def)

lemma calls_setStatus: "calls (setStatus s st w) = calls w"
  by (simp add: setStatus_def)

text \<open>Both loops of the manager over the chain, for each order of the list.\<close>

lemma chain_setup:
  assumes "a \<noteq> b" "b \<noteq> c" "a \<noteq> c"
      and "setup_succeeds E a" "setup_succeeds E b" "setup_succeeds E c"
      and "status w a = INIT" "status w b = INIT" "status w c = INIT"
      and "depth0 < 8"
      and "sps \<in> set (orders3 (spec_of a [b]) (spec_of b [c]) (spec_of c []))"
  shows "run_specs (Suc (Suc (Suc k))) E sps sps READY depth0 w
           = Some (call_setup E a (call_setup E b (call_setup E c w)))"
  using assms
  by (auto simp: orders3_def spec_of_def getStatus_def status_call_setup_ok)

lemma chain_start:
  assumes "a \<noteq> b" "b \<noteq> c" "a \<noteq> c"
      and "start_succeeds E a" "start_succeeds E b" "start_succeeds E c"
      and "status w a = READY" "status w b = READY" "status w c = READY"
      and "depth0 < 8"
      and "sps \<in> set (orders3 (spec_of a [b]) (spec_of b [c]) (spec_of c []))"
  shows "run_specs (Suc (Suc (Suc k))) E sps sps RUNNING depth0 w
           = Some (call_start E a (call_start E b (call_start E c w)))"
  using assms
  by (auto simp: orders3_def spec_of_def getStatus_def status_call_start_ok)

text \<open>Registration prepends: the list is the registrations in reverse.\<close>

lemma register_all_manager0:
  "list_all (\<lambda>sp. subsystem sp \<noteq> None) regs \<Longrightarrow>
   register_all manager0 regs = \<lparr>setup_flag = (regs \<noteq> []), specs = rev regs\<rparr>"
proof (induction regs rule: rev_induct)
  case Nil
  show ?case by (simp add: register_all_def manager0_def)
next
  case (snoc sp regs)
  then have prev: "register_all manager0 regs = \<lparr>setup_flag = (regs \<noteq> []), specs = rev regs\<rparr>"
    and owner: "subsystem sp \<noteq> None"
    by simp_all
  have "register_all manager0 (regs @ [sp]) = addSubsystem (Some sp) (register_all manager0 regs)"
    by (simp add: register_all_def)
  with prev owner show ?case
    by (auto simp: addSubsystem_def Let_def)
qed

lemma orders3_rev: "regs \<in> set (orders3 x y z) \<Longrightarrow> rev regs \<in> set (orders3 x y z)"
  by (auto simp: orders3_def)

text \<open>
  C5. Subsystems \<open>a\<close>, \<open>b\<close>, \<open>c\<close> with \<open>a\<close> depending on \<open>b\<close> and \<open>b\<close> on \<open>c\<close>, all in
  \<^verbatim>\<open>INIT\<close>, whose \<^verbatim>\<open>setup()\<close> and \<^verbatim>\<open>start()\<close> succeed, registered in any of the six orders:
  the manager's \<^verbatim>\<open>setup()\<close> returns \<^verbatim>\<open>READY\<close>, its \<^verbatim>\<open>start()\<close> then returns \<^verbatim>\<open>RUNNING\<close>, all
  three end \<^verbatim>\<open>RUNNING\<close>, and the calls made are \<^verbatim>\<open>setup()\<close> of \<open>c\<close>, \<open>b\<close>, \<open>a\<close> and then
  \<^verbatim>\<open>start()\<close> of \<open>c\<close>, \<open>b\<close>, \<open>a\<close>, in this order (each call returns before the next is
  made).
\<close>

theorem C5_chain_bringup_order:
  assumes distinct: "a \<noteq> b" "b \<noteq> c" "a \<noteq> c" "self \<noteq> a" "self \<noteq> b" "self \<noteq> c"
      and sok: "setup_succeeds E a" "setup_succeeds E b" "setup_succeeds E c"
      and rok: "start_succeeds E a" "start_succeeds E b" "start_succeeds E c"
      and init: "getStatus a w = INIT" "getStatus b w = INIT" "getStatus c w = INIT"
      and depth: "depth0 < 8" and fuel: "3 \<le> n"
      and regs: "regs \<in> set (orders3 (spec_of a [b]) (spec_of b [c]) (spec_of c []))"
  shows "\<exists>w1 w2.
           SubsystemManager_setup n E depth0 self (register_all manager0 regs) w
             = Some (READY, w1)
           \<and> SubsystemManager_start n E depth0 self (register_all manager0 regs) w1
             = Some (RUNNING, w2)
           \<and> getStatus a w2 = RUNNING \<and> getStatus b w2 = RUNNING \<and> getStatus c w2 = RUNNING
           \<and> calls w2 = calls w @ [Setup c, Setup b, Setup a, Start c, Start b, Start a]"
proof -
  from fuel obtain k where n: "n = Suc (Suc (Suc k))"
    by (metis le_Suc_ex numeral_3_eq_3 add_Suc)
  from regs have "list_all (\<lambda>sp. subsystem sp \<noteq> None) regs"
    by (auto simp: orders3_def spec_of_def)
  then have sp: "specs (register_all manager0 regs) = rev regs"
    by (simp add: register_all_manager0)
  let ?sps = "rev regs"
  from regs have ord: "?sps \<in> set (orders3 (spec_of a [b]) (spec_of b [c]) (spec_of c []))"
    by (rule orders3_rev)
  let ?w0 = "call_setup E a (call_setup E b (call_setup E c w))"
  let ?w1 = "setStatus self READY ?w0"
  let ?w2 = "call_start E a (call_start E b (call_start E c ?w1))"
  let ?w3 = "setStatus self RUNNING ?w2"
  from init have init': "status w a = INIT" "status w b = INIT" "status w c = INIT"
    by (simp_all add: getStatus_def)
  have s1: "run_specs n E ?sps ?sps READY depth0 w = Some ?w0"
    unfolding n by (rule chain_setup [OF distinct(1-3) sok init' depth ord])
  have st1: "status ?w1 a = READY" "status ?w1 b = READY" "status ?w1 c = READY"
    using distinct sok by (simp_all add: status_setStatus status_call_setup_ok)
  have s2: "run_specs n E ?sps ?sps RUNNING depth0 ?w1 = Some ?w2"
    unfolding n by (rule chain_start [OF distinct(1-3) rok st1 depth ord])
  have r1: "SubsystemManager_setup n E depth0 self (register_all manager0 regs) w
              = Some (READY, ?w1)"
    by (simp add: SubsystemManager_setup_def sp s1 getStatus_def status_setStatus)
  have r2: "SubsystemManager_start n E depth0 self (register_all manager0 regs) ?w1
              = Some (RUNNING, ?w3)"
    by (simp add: SubsystemManager_start_def sp s2 getStatus_def status_setStatus)
  have st3: "getStatus a ?w3 = RUNNING" "getStatus b ?w3 = RUNNING" "getStatus c ?w3 = RUNNING"
    using distinct rok st1 by (simp_all add: getStatus_def status_setStatus status_call_start_ok)
  have c3: "calls ?w3 = calls w @ [Setup c, Setup b, Setup a, Start c, Start b, Start a]"
    by (simp add: calls_setStatus calls_call_start calls_call_setup)
  from r1 r2 st3 c3 show ?thesis by blast
qed

theorem C5_chain_bringup_order_witness:
  "setup_succeeds env0 1 \<and> setup_succeeds env0 2 \<and> setup_succeeds env0 3
   \<and> start_succeeds env0 1 \<and> start_succeeds env0 2 \<and> start_succeeds env0 3
   \<and> getStatus 1 world0 = INIT \<and> getStatus 2 world0 = INIT \<and> getStatus 3 world0 = INIT
   \<and> [chainB, chainA, chainC] \<in> set (orders3 chainA chainB chainC)
   \<and> (\<exists>w1 w2.
         SubsystemManager_setup 3 env0 0 0 (register_all manager0 [chainB, chainA, chainC]) world0
           = Some (READY, w1)
         \<and> SubsystemManager_start 3 env0 0 0 (register_all manager0 [chainB, chainA, chainC]) w1
           = Some (RUNNING, w2)
         \<and> getStatus 1 w2 = RUNNING \<and> getStatus 2 w2 = RUNNING \<and> getStatus 3 w2 = RUNNING
         \<and> calls w2 = [Setup 3, Setup 2, Setup 1, Start 3, Start 2, Start 1])"
proof -
  have sok: "setup_succeeds env0 1" "setup_succeeds env0 2" "setup_succeeds env0 3"
    by (simp_all add: setup_succeeds_def env0_def)
  have rok: "start_succeeds env0 1" "start_succeeds env0 2" "start_succeeds env0 3"
    by (simp_all add: start_succeeds_def env0_def)
  have init: "getStatus 1 world0 = INIT" "getStatus 2 world0 = INIT" "getStatus 3 world0 = INIT"
    by (simp_all add: getStatus_def world0_def)
  have regs: "[chainB, chainA, chainC] \<in> set (orders3 (spec_of 1 [2]) (spec_of 2 [3]) (spec_of 3 []))"
    by (simp add: orders3_def chainA_def chainB_def chainC_def)
  have "\<exists>w1 w2.
         SubsystemManager_setup 3 env0 0 0 (register_all manager0 [chainB, chainA, chainC]) world0
           = Some (READY, w1)
         \<and> SubsystemManager_start 3 env0 0 0 (register_all manager0 [chainB, chainA, chainC]) w1
           = Some (RUNNING, w2)
         \<and> getStatus 1 w2 = RUNNING \<and> getStatus 2 w2 = RUNNING \<and> getStatus 3 w2 = RUNNING
         \<and> calls w2 = calls world0 @ [Setup 3, Setup 2, Setup 1, Start 3, Start 2, Start 1]"
    by (rule C5_chain_bringup_order [OF _ _ _ _ _ _ sok rok init _ _ regs]) simp_all
  then have run: "\<exists>w1 w2.
         SubsystemManager_setup 3 env0 0 0 (register_all manager0 [chainB, chainA, chainC]) world0
           = Some (READY, w1)
         \<and> SubsystemManager_start 3 env0 0 0 (register_all manager0 [chainB, chainA, chainC]) w1
           = Some (RUNNING, w2)
         \<and> getStatus 1 w2 = RUNNING \<and> getStatus 2 w2 = RUNNING \<and> getStatus 3 w2 = RUNNING
         \<and> calls w2 = [Setup 3, Setup 2, Setup 1, Start 3, Start 2, Start 1]"
    by (simp add: world0_def)
  from regs have "[chainB, chainA, chainC] \<in> set (orders3 chainA chainB chainC)"
    by (simp add: chainA_def chainB_def chainC_def)
  with sok rok init run show ?thesis by blast
qed

section \<open>Properties of the data container\<close>

lemma register_callbacks_snoc:
  "register_callbacks d (regs @ [(f, a)]) = registerCallback f a (register_callbacks d regs)"
  by (simp add: register_callbacks_def)

text \<open>
  The object after any sequence of registrations: the counter is the number of
  registrations, capped at the capacity, and the array holds the first ones in order.
\<close>

lemma registered_state:
  "numCallbacks (register_callbacks (DataThing_new x) regs)
     = int (min MAX_CALLBACKS (length regs))
   \<and> callbacks (register_callbacks (DataThing_new x) regs)
       = map (\<lambda>r. Some (mk_callback r)) (take MAX_CALLBACKS regs)
         @ replicate (MAX_CALLBACKS - length regs) None"
proof (induction regs rule: rev_induct)
  case Nil
  show ?case by (simp add: register_callbacks_def DataThing_new_def)
next
  case (snoc r regs)
  obtain f a where r: "r = (f, a)" by (cases r)
  let ?d = "register_callbacks (DataThing_new x) regs"
  show ?case
  proof (cases "MAX_CALLBACKS \<le> length regs")
    case True
    then have "numCallbacks ?d = int MAX_CALLBACKS" using snoc by simp
    then have "registerCallback f a ?d = ?d" by (simp add: registerCallback_def)
    with snoc True r show ?thesis by (simp add: register_callbacks_snoc)
  next
    case False
    then obtain k where k: "MAX_CALLBACKS - length regs = Suc k"
      by (cases "MAX_CALLBACKS - length regs") simp_all
    from False have n: "numCallbacks ?d = int (length regs)" using snoc by simp
    with False have ne: "numCallbacks ?d \<noteq> int MAX_CALLBACKS" by simp
    have len: "length (map (\<lambda>r. Some (mk_callback r)) (take MAX_CALLBACKS regs)) = length regs"
      using False by simp
    have upd: "(callbacks ?d)[length regs := Some (mk_callback r)]
        = map (\<lambda>r. Some (mk_callback r)) (take MAX_CALLBACKS regs)
          @ Some (mk_callback r) # replicate k None"
      using snoc k len by (simp add: list_update_append del: length_map)
    have k': "MAX_CALLBACKS - Suc (length regs) = k" using k by simp
    from False have tk: "take MAX_CALLBACKS (regs @ [r]) = take MAX_CALLBACKS regs @ [r]"
      by simp
    show ?thesis
      using n ne upd k' False
      by (simp add: register_callbacks_snoc r registerCallback_def Let_def mk_callback_def tk
          del: take_append)
  qed
qed

text \<open>The loop over slots that were all written.\<close>

lemma callCallbacks_loop_filled:
  "i + k \<le> length cs \<Longrightarrow>
   callCallbacks_loop (map Some cs @ rest) i k = Some (take k (drop i cs))"
proof (induction k arbitrary: i)
  case 0
  show ?case by simp
next
  case (Suc k)
  then have i: "i < length cs" by simp
  from Suc
  have "callCallbacks_loop (map Some cs @ rest) (Suc i) k = Some (take k (drop (Suc i) cs))"
    by simp
  with i show ?case
    by (simp add: nth_append take_Suc_conv_app_nth Cons_nth_drop_Suc [symmetric])
qed

text \<open>
  C8. After eight or more \<^verbatim>\<open>registerCallback\<close> calls on a new \<^verbatim>\<open>DataThing\<close>, a further
  call leaves the object as it is (and \<^verbatim>\<open>registerCallback\<close> has no result that could
  report it), and \<^verbatim>\<open>callCallbacks\<close> invokes exactly eight callbacks: those of the
  first eight registrations, in order.
\<close>

theorem C8_ninth_registration_dropped:
  assumes "8 \<le> length regs"
  shows "registerCallback f a (register_callbacks (DataThing_new x) regs)
           = register_callbacks (DataThing_new x) regs
         \<and> callCallbacks (register_callbacks (DataThing_new x) regs)
           = Some (map mk_callback (take 8 regs))
         \<and> map_option length (callCallbacks (register_callbacks (DataThing_new x) regs))
           = Some 8"
proof -
  let ?d = "register_callbacks (DataThing_new x) regs"
  from assms have n: "numCallbacks ?d = 8"
    using registered_state [of x regs] by (simp add: MAX_CALLBACKS_def)
  from assms have c: "callbacks ?d = map Some (map mk_callback (take 8 regs)) @ []"
    using registered_state [of x regs] by (simp add: MAX_CALLBACKS_def)
  have r: "registerCallback f a ?d = ?d"
    using n by (simp add: registerCallback_def MAX_CALLBACKS_def)
  have "callCallbacks_loop (callbacks ?d) 0 8
          = Some (take 8 (drop 0 (map mk_callback (take 8 regs))))"
    unfolding c using assms by (intro callCallbacks_loop_filled) simp
  then have l: "callCallbacks ?d = Some (map mk_callback (take 8 regs))"
    using n assms by (simp add: callCallbacks_def)
  from r l assms show ?thesis by simp
qed

theorem C8_ninth_registration_dropped_witness:
  "8 \<le> length nine_registrations
   \<and> registerCallback 10 20 (register_callbacks (DataThing_new (0::nat)) nine_registrations)
       = register_callbacks (DataThing_new 0) nine_registrations
   \<and> callCallbacks (register_callbacks (DataThing_new (0::nat)) nine_registrations)
       = Some [\<lparr>args = 11, fn = 1\<rparr>, \<lparr>args = 12, fn = 2\<rparr>, \<lparr>args = 13, fn = 3\<rparr>,
               \<lparr>args = 14, fn = 4\<rparr>, \<lparr>args = 15, fn = 5\<rparr>, \<lparr>args = 16, fn = 6\<rparr>,
               \<lparr>args = 17, fn = 7\<rparr>, \<lparr>args = 18, fn = 8\<rparr>]"
proof -
  have h: "8 \<le> length nine_registrations"
    by (simp add: nine_registrations_def)
  have t: "map mk_callback (take 8 nine_registrations)
             = [\<lparr>args = 11, fn = 1\<rparr>, \<lparr>args = 12, fn = 2\<rparr>, \<lparr>args = 13, fn = 3\<rparr>,
                \<lparr>args = 14, fn = 4\<rparr>, \<lparr>args = 15, fn = 5\<rparr>, \<lparr>args = 16, fn = 6\<rparr>,
                \<lparr>args = 17, fn = 7\<rparr>, \<lparr>args = 18, fn = 8\<rparr>]"
    by (simp add: nine_registrations_def mk_callback_def)
  from C8_ninth_registration_dropped [OF h, of 10 20 "0::nat"] h t show ?thesis
    by simp
qed

section \<open>Properties of the lock\<close>

subsection \<open>Sums over the threads\<close>

lemma sum_list_map_update:
  fixes f :: "'a \<Rightarrow> nat"
  shows "i < length xs \<Longrightarrow>
         sum_list (map f (xs[i := y])) + f (xs ! i) = sum_list (map f xs) + f y"
proof (induction xs arbitrary: i)
  case Nil
  then show ?case by simp
next
  case (Cons x xs)
  show ?case
  proof (cases i)
    case 0
    then show ?thesis by simp
  next
    case (Suc j)
    with Cons.prems have "j < length xs" by simp
    from Cons.IH [OF this] Suc show ?thesis by simp
  qed
qed

lemma member_le_sum:
  fixes f :: "'a \<Rightarrow> nat"
  shows "x \<in> set xs \<Longrightarrow> f x \<le> sum_list (map f xs)"
  by (induction xs) auto

lemma two_members_le_sum:
  fixes f :: "'a \<Rightarrow> nat"
  shows "x \<in> set xs \<Longrightarrow> y \<in> set xs \<Longrightarrow> x \<noteq> y \<Longrightarrow> f x + f y \<le> sum_list (map f xs)"
proof (induction xs)
  case Nil
  then show ?case by simp
next
  case (Cons z zs)
  show ?case
  proof (cases "x = z")
    case True
    with Cons.prems have "y \<in> set zs" by auto
    from member_le_sum [OF this, of f] True show ?thesis by simp
  next
    case False
    note xz = this
    show ?thesis
    proof (cases "y = z")
      case True
      with Cons.prems have "x \<in> set zs" by auto
      from member_le_sum [OF this, of f] True show ?thesis by simp
    next
      case False
      with xz Cons show ?thesis by fastforce
    qed
  qed
qed

lemma count_positive_le_sum:
  fixes f :: "'a \<Rightarrow> nat"
  shows "length (filter (\<lambda>x. 0 < f x) xs) \<le> sum_list (map f xs)"
  by (induction xs) auto

subsection \<open>Every action of paired use keeps the balance\<close>

lemma held_thread_le:
  assumes "balanced s" and "i < length (threads s)"
  shows "sem s + held (threads s ! i) \<le> MAX_READERS"
proof -
  from assms(2) have "threads s ! i \<in> set (threads s)" by simp
  from member_le_sum [OF this, of held] assms(1) show ?thesis
    by (simp add: balanced_def)
qed

lemma balanced_set_thread:
  assumes "balanced s" and "i < length (threads s)"
      and "c + held t = sem s + held (threads s ! i)"
  shows "balanced (set_thread i t (s\<lparr>sem := c\<rparr>))"
proof -
  from sum_list_map_update [OF assms(2), of held t]
  have "sum_list (map held ((threads s)[i := t])) + held (threads s ! i)
          = sum_list (map held (threads s)) + held t" .
  with assms(1,3) show ?thesis
    by (simp add: balanced_def set_thread_def)
qed

lemma balanced_set_thread_same:
  assumes "balanced s" and "i < length (threads s)"
      and "held t = held (threads s ! i)"
  shows "balanced (set_thread i t s)" "balanced (set_thread i t (s\<lparr>mutex := m\<rparr>))"
proof -
  from sum_list_map_update [OF assms(2), of held t] assms(3)
  have "sum_list (map held ((threads s)[i := t])) = sum_list (map held (threads s))"
    by simp
  with assms(1)
  show "balanced (set_thread i t s)" "balanced (set_thread i t (s\<lparr>mutex := m\<rparr>))"
    by (simp_all add: balanced_def set_thread_def)
qed

lemma step_balanced:
  assumes "balanced s" and "step a i s = Some s'" and "call_paired a (threads s ! i)"
  shows "balanced s'"
proof -
  from assms(2) have i: "i < length (threads s)"
    by (simp add: step_def split: if_splits)
  note le = held_thread_le [OF assms(1) i]
  show ?thesis
  proof (cases a)
    case RLock
    with assms(2) i show ?thesis
      by (auto simp: step_def Let_def xSemaphoreTake_def held_def
          split: if_splits pc.splits intro!: balanced_set_thread [OF assms(1)])
  next
    case RUnlock
    with assms(2,3) i le show ?thesis
      by (auto simp: step_def Let_def xSemaphoreGive_def held_def call_paired_def
          split: if_splits pc.splits intro!: balanced_set_thread [OF assms(1)])
  next
    case Lock
    with assms(2) i le show ?thesis
      by (auto simp: step_def Let_def xSemaphoreTake_def held_def
          split: if_splits pc.splits option.splits
          intro!: balanced_set_thread [OF assms(1)] balanced_set_thread_same [OF assms(1)])
  next
    case UnLock
    with assms(2,3) i le show ?thesis
      by (auto simp: step_def Let_def xSemaphoreGive_def held_def call_paired_def
          MAX_READERS_def split: if_splits pc.splits
          intro!: balanced_set_thread [OF assms(1)] balanced_set_thread_same [OF assms(1)])
  qed
qed

lemma run_balanced:
  "balanced s \<Longrightarrow> paired s sched \<Longrightarrow> run s sched = Some s' \<Longrightarrow> balanced s'"
proof (induction sched arbitrary: s)
  case Nil
  then show ?case by simp
next
  case (Cons x sched)
  obtain i a where x: "x = (i, a)" by (cases x)
  from Cons.prems(3) x obtain s1
    where s1: "step a i s = Some s1" and r: "run s1 sched = Some s'"
    by (auto split: option.splits)
  from Cons.prems(2) x s1 have p: "call_paired a (threads s ! i)" and ps: "paired s1 sched"
    by simp_all
  from Cons.IH [OF step_balanced [OF Cons.prems(1) s1 p] ps r] show ?case .
qed

lemma new_balanced: "balanced (ReadWriteLock_new n)"
  by (simp add: balanced_def ReadWriteLock_new_def held_def sum_list_replicate)

subsection \<open>What the balance excludes\<close>

lemma balanced_safe:
  assumes "balanced s"
  shows "\<not> (write_holders s \<noteq> [] \<and> read_holders s \<noteq> [])"
    and "length (read_holders s) \<le> MAX_READERS"
proof -
  show "\<not> (write_holders s \<noteq> [] \<and> read_holders s \<noteq> [])"
  proof
    assume both: "write_holders s \<noteq> [] \<and> read_holders s \<noteq> []"
    then obtain tw where tw: "tw \<in> set (threads s)" "0 < writes tw"
      by (auto simp: write_holders_def filter_empty_conv)
    from both obtain tr where tr: "tr \<in> set (threads s)" "0 < reads tr"
      by (auto simp: read_holders_def filter_empty_conv)
    from assms have total: "sum_list (map held (threads s)) \<le> MAX_READERS"
      by (simp add: balanced_def)
    have ge: "reads t + MAX_READERS * writes t \<le> held t" for t
      by (simp add: held_def)
    from tw(2) have big: "MAX_READERS \<le> MAX_READERS * writes tw"
      by (simp add: MAX_READERS_def)
    show False
    proof (cases "tw = tr")
      case True
      with tr(2) have "0 < reads tw" by simp
      with ge [of tw] big have "MAX_READERS < held tw" by linarith
      with member_le_sum [OF tw(1), of held] total show False by simp
    next
      case False
      from two_members_le_sum [OF tw(1) tr(1) False, of held] total
      have "held tw + held tr \<le> MAX_READERS" by simp
      with ge [of tw] ge [of tr] big tr(2) show False by linarith
    qed
  qed
  have "length (read_holders s) \<le> sum_list (map reads (threads s))"
    unfolding read_holders_def by (rule count_positive_le_sum)
  also have "\<dots> \<le> sum_list (map held (threads s))"
    by (rule sum_list_mono) (simp add: held_def)
  also have "\<dots> \<le> MAX_READERS"
    using assms by (simp add: balanced_def)
  finally show "length (read_holders s) \<le> MAX_READERS" .
qed

text \<open>
  C6, as the claim states it: after any interleaving of the four operations no thread
  would hold the write lock beside a thread that holds a read slot. Here thread 0
  holds the write lock, thread 1 calls \<^verbatim>\<open>RUnlock()\<close> without a read slot and then
  \<^verbatim>\<open>RLock()\<close>, which returns: a writer and a reader at once.
\<close>

theorem C6_unpaired_counterexample:
  "run (ReadWriteLock_new 2) unpaired_schedule = Some unpaired_final
   \<and> write_holders unpaired_final = [\<lparr>reads = 0, writes = 1, pc = Idle\<rparr>]
   \<and> read_holders unpaired_final = [\<lparr>reads = 1, writes = 0, pc = Idle\<rparr>]"
  by (simp add: unpaired_schedule_def unpaired_final_def ReadWriteLock_new_def step_def Let_def
      set_thread_def xSemaphoreTake_def xSemaphoreGive_def MAX_READERS_def numeral_2_eq_2
      write_holders_def read_holders_def)

text \<open>The interleaving above is not paired.\<close>

lemma unpaired_schedule_not_paired: "\<not> paired (ReadWriteLock_new 2) unpaired_schedule"
  by (simp add: unpaired_schedule_def ReadWriteLock_new_def step_def Let_def
      set_thread_def xSemaphoreTake_def xSemaphoreGive_def MAX_READERS_def numeral_2_eq_2
      call_paired_def)

text \<open>
  C6, amended. After any interleaving of the actions of any number of threads on one
  new lock in which the calls are paired (\<^verbatim>\<open>RUnlock()\<close> by a thread that holds a read
  slot, \<^verbatim>\<open>UnLock()\<close> by a thread that holds the write lock; each take waiting until it
  can happen), no thread holds the write lock while a thread holds a read slot, and
  at most 8 threads hold read slots.
\<close>

theorem C6_paired_writer_excludes_readers:
  assumes "paired (ReadWriteLock_new n) sched"
      and "run (ReadWriteLock_new n) sched = Some s"
  shows "\<not> (write_holders s \<noteq> [] \<and> read_holders s \<noteq> [])
         \<and> length (read_holders s) \<le> 8"
  using balanced_safe [OF run_balanced [OF new_balanced assms]]
  by (simp add: MAX_READERS_def)

theorem C6_paired_writer_excludes_readers_witness:
  "paired (ReadWriteLock_new 3) example_schedule
   \<and> run (ReadWriteLock_new 3) example_schedule = Some example_final
   \<and> write_holders example_final = [\<lparr>reads = 0, writes = 1, pc = Idle\<rparr>]
   \<and> \<not> (write_holders example_final \<noteq> [] \<and> read_holders example_final \<noteq> [])
   \<and> length (read_holders example_final) \<le> 8"
proof -
  have p: "paired (ReadWriteLock_new 3) example_schedule"
    by (simp add: example_schedule_def ReadWriteLock_new_def step_def Let_def
        set_thread_def xSemaphoreTake_def xSemaphoreGive_def MAX_READERS_def numeral_3_eq_3
        numeral_2_eq_2 call_paired_def)
  have r: "run (ReadWriteLock_new 3) example_schedule = Some example_final"
    by (simp add: example_schedule_def example_final_def ReadWriteLock_new_def step_def Let_def
        set_thread_def xSemaphoreTake_def xSemaphoreGive_def MAX_READERS_def numeral_3_eq_3
        numeral_2_eq_2)
  have w: "write_holders example_final = [\<lparr>reads = 0, writes = 1, pc = Idle\<rparr>]"
    by (simp add: write_holders_def example_final_def)
  from C6_paired_writer_excludes_readers [OF p r] p r w show ?thesis by simp
qed

text \<open>In that state a reader waits: the take of \<^verbatim>\<open>RLock()\<close> cannot happen.\<close>

lemma reader_waits_for_writer: "step RLock 0 example_final = None"
  by (simp add: example_final_def step_def xSemaphoreTake_def)

subsection \<open>The accessors on a free lock\<close>

text \<open>
  On a lock that nobody holds, a thread runs the lock actions of \<^verbatim>\<open>getStatus\<close> and of
  \<^verbatim>\<open>setStatus\<close> without waiting and leaves the lock as it found it; the calls of both
  are paired.
\<close>

lemma accessors_leave_lock_free:
  assumes "i < length (threads s)" and "sem s = MAX_READERS" and "mutex s = 1"
      and "threads s ! i = \<lparr>reads = 0, writes = 0, pc = Idle\<rparr>"
  shows "run s (getStatus_actions i) = Some s" and "run s (setStatus_actions i) = Some s"
    and "paired s (getStatus_actions i)" and "paired s (setStatus_actions i)"
proof -
  from assms(1,4)
  have id: "(threads s)[i := \<lparr>reads = 0, writes = 0, pc = Idle\<rparr>] = threads s"
    by (metis list_update_id)
  from assms id show "run s (getStatus_actions i) = Some s"
    by (simp add: getStatus_actions_def step_def Let_def set_thread_def xSemaphoreTake_def
        xSemaphoreGive_def MAX_READERS_def)
  from assms id show "run s (setStatus_actions i) = Some s"
    by (simp add: setStatus_actions_def step_def Let_def set_thread_def xSemaphoreTake_def
        xSemaphoreGive_def MAX_READERS_def)
  from assms id show "paired s (getStatus_actions i)"
    by (simp add: getStatus_actions_def step_def Let_def set_thread_def xSemaphoreTake_def
        xSemaphoreGive_def MAX_READERS_def call_paired_def)
  from assms id show "paired s (setStatus_actions i)"
    by (simp add: setStatus_actions_def step_def Let_def set_thread_def xSemaphoreTake_def
        xSemaphoreGive_def MAX_READERS_def call_paired_def)
qed

end
